theory Spec2Isabelle
  imports Main "HOL-Library.Word"
begin

section \<open>Converse Hub: the message page (src/app/page.tsx)\<close>

text \<open>
  The page keeps a flat snapshot of the \<open>messages\<close> table, sends new rows to the
  store, deletes subtrees row by row and renders the snapshot as a tree. Every
  definition below follows one function or handler of \<open>page.tsx\<close>; the store
  behind \<open>supabase\<close> is the only part that is not in the file and is modelled as
  a table with a log of the calls it received.
\<close>

subsection \<open>Strings\<close>

text \<open>
  A JavaScript string is a sequence of UTF-16 code units. \<open>ascii\<close> writes a
  literal of the source as such a sequence.
\<close>

type_synonym js_string = "16 word list"

definition ascii :: "string \<Rightarrow> js_string" where
  "ascii s = map (\<lambda>c. word_of_nat (of_char c)) s"

text \<open>
  \<open>String.prototype.trim\<close> strips the code units of ECMAScript's WhiteSpace and
  LineTerminator productions from both ends: TAB, LF, VT, FF, CR, SP, NBSP,
  U+1680, U+2000 to U+200A, LS, PS, U+202F, U+205F, U+3000 and the BOM.
\<close>

definition is_white_space :: "16 word \<Rightarrow> bool" where
  "is_white_space c =
     (c = 0x0009 \<or> c = 0x000A \<or> c = 0x000B \<or> c = 0x000C \<or> c = 0x000D \<or> c = 0x0020 \<or>
      c = 0x00A0 \<or> c = 0x1680 \<or> (0x2000 \<le> c \<and> c \<le> 0x200A) \<or> c = 0x2028 \<or>
      c = 0x2029 \<or> c = 0x202F \<or> c = 0x205F \<or> c = 0x3000 \<or> c = 0xFEFF)"

definition trim :: "js_string \<Rightarrow> js_string" where
  "trim s = rev (dropWhile is_white_space (rev (dropWhile is_white_space s)))"

subsection \<open>Messages\<close>

text \<open>
  \<open>interface Message\<close> (lines 16 to 22). The three fields the page itself
  writes form the payload of an insert; \<open>id\<close> and \<open>created_at\<close> are assigned by
  the store. \<open>number\<close> is modelled as \<open>int\<close> (ids and versions are integer
  columns; the page's arithmetic on them is in the subsection on numbers) and
  the timestamp \<open>created_at\<close> as its position on the time line.
\<close>

record draft =
  content :: js_string
  parent_id :: "int option"
  version :: int

record message = draft +
  id_msg :: int
  created_at :: int

subsection \<open>Numbers\<close>

text \<open>
  A \<open>number\<close> of the page is an IEEE double. The numbers that occur here (ids,
  versions) are integers, so they are modelled as \<open>int\<close>, and the one sum the
  page computes, \<open>parentMessage.version + 1\<close> (line 77), is the exact sum
  rounded to the nearest double, ties to the even significand. An integer up
  to \<open>2^53\<close> in magnitude is a double; beyond, a double has 53 significant
  bits, so the doubles around an integer of \<open>b\<close> bits are the multiples of
  \<open>2^(b - 53)\<close>. \<open>safe_integer\<close> is \<open>Number.isSafeInteger\<close>.
\<close>

fun bit_length :: "nat \<Rightarrow> nat" where
  "bit_length n = (if n = 0 then 0 else Suc (bit_length (n div 2)))"

declare bit_length.simps [simp del]

definition round_to_number :: "int \<Rightarrow> int" where
  "round_to_number x =
     (if \<bar>x\<bar> \<le> 2 ^ 53 then x
      else
        (let n = \<bar>x\<bar>;
             ulp = 2 ^ (bit_length (nat n) - 53);
             q = n div ulp;
             r = n mod ulp;
             m = (if 2 * r < ulp then q
                  else if ulp < 2 * r then q + 1
                  else if even q then q else q + 1)
         in sgn x * (m * ulp)))"

definition js_add :: "int \<Rightarrow> int \<Rightarrow> int" where
  "js_add a b = round_to_number (a + b)"

definition safe_integer :: "int \<Rightarrow> bool" where
  "safe_integer v = (\<bar>v\<bar> \<le> 2 ^ 53 - 1)"

subsection \<open>The store\<close>

text \<open>
  Modelled from the spec: the store client (\<open>utils/supabaseClient\<close> and the managed
  table behind it) is not part of the page's source. Section 6 of the specification gives its
  operations: insert of \<open>{content, parent_id, version}\<close>, delete by id, select
  with an order. Each call answers with a response \<open>{data, error}\<close>: the data
  and no error, or no data and a \<open>StoreError\<close>. The table is
  the list of its rows in insertion order; \<open>calls\<close> records every call the page
  issued, in order; \<open>faults\<close> scripts the transient failures of the coming
  calls (\<open>True\<close>: the next call fails; an empty script: every call succeeds);
  \<open>next_id\<close> and \<open>now\<close> are what the store assigns to a new row.
\<close>

datatype store_error = StoreError

datatype call =
    SelectAll
  | SelectChildren int
  | Insert draft
  | Delete int

record 'a response =
  data :: "'a option"
  error :: "store_error option"

definition succeeded :: "'a \<Rightarrow> 'a response" where
  "succeeded d = \<lparr>data = Some d, error = None\<rparr>"

definition failed :: "'a response" where
  "failed = \<lparr>data = None, error = Some StoreError\<rparr>"

record store =
  rows :: "message list"
  next_id :: int
  now :: int
  calls :: "call list"
  faults :: "bool list"

text \<open>
  Modelled from the spec: a call reaches the store (it is logged) and then
  either fails, consuming one entry of the fault script, or succeeds.
\<close>

definition issue :: "call \<Rightarrow> store \<Rightarrow> bool \<times> store" where
  "issue c db =
     (case faults db of
        [] \<Rightarrow> (False, db\<lparr>calls := calls db @ [c]\<rparr>)
      | f # fs \<Rightarrow> (f, db\<lparr>calls := calls db @ [c], faults := fs\<rparr>))"

text \<open>
  Modelled from the spec: \<open>from('messages').insert(record)\<close>. The store assigns
  the id (monotonically, never reused) and the creation time.
\<close>

definition insert_row :: "draft \<Rightarrow> store \<Rightarrow> unit response \<times> store" where
  "insert_row d db =
     (case issue (Insert d) db of
        (True, db') \<Rightarrow> (failed, db')
      | (False, db') \<Rightarrow>
          (succeeded (),
           db'\<lparr>rows := rows db' @
                  [\<lparr>content = content d, parent_id = parent_id d, version = version d,
                    id_msg = next_id db', created_at = now db'\<rparr>],
               next_id := next_id db' + 1\<rparr>))"

text \<open>
  Modelled from the spec: \<open>from('messages').select('id').eq('parent_id', id)\<close>:
  the ids of the rows whose \<open>parent_id\<close> is the given id, in table order.
\<close>

definition select_children :: "int \<Rightarrow> store \<Rightarrow> int list response \<times> store" where
  "select_children messageId db =
     (case issue (SelectChildren messageId) db of
        (True, db') \<Rightarrow> (failed, db')
      | (False, db') \<Rightarrow>
          (succeeded (map id_msg (filter (\<lambda>r. parent_id r = Some messageId) (rows db'))),
           db'))"

text \<open>
  Modelled from the spec: \<open>from('messages').delete().eq('id', id)\<close>: every row
  with that id goes; deleting an id that is not in the table succeeds.
\<close>

definition delete_by_id :: "int \<Rightarrow> store \<Rightarrow> unit response \<times> store" where
  "delete_by_id messageId db =
     (case issue (Delete messageId) db of
        (True, db') \<Rightarrow> (failed, db')
      | (False, db') \<Rightarrow>
          (succeeded (), db'\<lparr>rows := filter (\<lambda>r. id_msg r \<noteq> messageId) (rows db')\<rparr>))"

text \<open>
  Modelled from the spec: the order clauses of the full select (lines 57 to 59),
  \<open>parent_id\<close> descending (nulls first, as the store sorts a descending
  column), then \<open>version\<close> descending, then \<open>created_at\<close> descending.
  \<open>query_before a b\<close>: row \<open>a\<close> may stand before row \<open>b\<close>.
\<close>

definition query_before :: "message \<Rightarrow> message \<Rightarrow> bool" where
  "query_before a b =
     (case (parent_id a, parent_id b) of
        (None, Some q) \<Rightarrow> True
      | (Some p, None) \<Rightarrow> False
      | (Some p, Some q) \<Rightarrow>
          (if p \<noteq> q then q < p
           else if version a \<noteq> version b then version b < version a
           else created_at b \<le> created_at a)
      | (None, None) \<Rightarrow>
          (if version a \<noteq> version b then version b < version a
           else created_at b \<le> created_at a))"

text \<open>
  A stable sort (insertion sort): an element goes before the first element it
  may stand before, so elements that compare equal keep their order. It serves
  both the store's \<open>order\<close> and \<open>Array.prototype.sort\<close>, which is stable.
\<close>

fun insert_sorted :: "('a \<Rightarrow> 'a \<Rightarrow> bool) \<Rightarrow> 'a \<Rightarrow> 'a list \<Rightarrow> 'a list" where
  "insert_sorted ahead x [] = [x]"
| "insert_sorted ahead x (y # ys) =
     (if ahead x y then x # y # ys else y # insert_sorted ahead x ys)"

fun stable_sort :: "('a \<Rightarrow> 'a \<Rightarrow> bool) \<Rightarrow> 'a list \<Rightarrow> 'a list" where
  "stable_sort ahead [] = []"
| "stable_sort ahead (x # xs) = insert_sorted ahead x (stable_sort ahead xs)"

text \<open>
  Modelled from the spec: \<open>from('messages').select('*')\<close> with the three order
  clauses: all rows of the table, sorted as \<open>query_before\<close> says.
\<close>

definition select_all_ordered :: "store \<Rightarrow> message list response \<times> store" where
  "select_all_ordered db =
     (case issue SelectAll db of
        (True, db') \<Rightarrow> (failed, db')
      | (False, db') \<Rightarrow> (succeeded (stable_sort query_before (rows db')), db'))"

subsection \<open>The page state\<close>

text \<open>The five \<open>useState\<close> cells of \<open>HomePage\<close> (lines 25 to 29).\<close>

record page =
  messages :: "message list"
  input :: js_string
  selectedMessage :: "message option"
  branchesVisible :: "int \<rightharpoonup> bool"
  errorMessage :: "js_string option"

subsection \<open>fetchMessages (lines 52 to 68)\<close>

text \<open>
  On an error in the response the handler throws before \<open>setMessages\<close> and the
  \<open>catch\<close> sets the banner; otherwise the snapshot becomes \<open>data || []\<close>.
\<close>

definition fetchMessages :: "page \<times> store \<Rightarrow> page \<times> store" where
  "fetchMessages = (\<lambda>(ui, db).
     case select_all_ordered db of
       (resp, db') \<Rightarrow>
         (case error resp of
            Some e \<Rightarrow>
              (ui\<lparr>errorMessage := Some (ascii ''Error fetching messages. Please try again.'')\<rparr>,
               db')
          | None \<Rightarrow>
              (ui\<lparr>messages := (case data resp of None \<Rightarrow> [] | Some d \<Rightarrow> d)\<rparr>, db')))"

subsection \<open>sendMessage (lines 70 to 88) and the handlers that lead to it\<close>

definition sendMessage :: "message option \<Rightarrow> page \<times> store \<Rightarrow> page \<times> store" where
  "sendMessage parentMessage = (\<lambda>(ui, db).
     if trim (input ui) = [] then (ui, db)
     else
       (case insert_row
               \<lparr>content = input ui,
                parent_id = (case parentMessage of Some p \<Rightarrow> parent_id p | None \<Rightarrow> None),
                version = (case parentMessage of Some p \<Rightarrow> js_add (version p) 1 | None \<Rightarrow> 1)\<rparr> db of
          (resp, db') \<Rightarrow>
            (case error resp of
               Some e \<Rightarrow>
                 (ui\<lparr>errorMessage := Some (ascii ''Error sending message. Please try again.'')\<rparr>,
                  db')
             | None \<Rightarrow> (ui\<lparr>input := [], selectedMessage := None\<rparr>, db'))))"

text \<open>The Edit button (lines 199 to 205).\<close>

definition clickEdit :: "message \<Rightarrow> page \<Rightarrow> page" where
  "clickEdit m ui = ui\<lparr>selectedMessage := Some m, input := content m\<rparr>"

text \<open>The Branch Reply button (lines 225 to 231).\<close>

definition clickBranchReply :: "message \<Rightarrow> page \<Rightarrow> page" where
  "clickBranchReply m ui = ui\<lparr>selectedMessage := Some m, input := []\<rparr>"

text \<open>Typing into the input box (line 276).\<close>

definition onChange :: "js_string \<Rightarrow> page \<Rightarrow> page" where
  "onChange v ui = ui\<lparr>input := v\<rparr>"

text \<open>The Send button and the Enter key (lines 130 and 281).\<close>

definition clickSend :: "page \<times> store \<Rightarrow> page \<times> store" where
  "clickSend = (\<lambda>(ui, db). sendMessage (selectedMessage ui) (ui, db))"

text \<open>
  The two user operations on an existing message, as the page offers them:
  press the button on the message, type the text, send.
\<close>

definition editMessage :: "message \<Rightarrow> js_string \<Rightarrow> page \<times> store \<Rightarrow> page \<times> store" where
  "editMessage existing text = (\<lambda>(ui, db). clickSend (onChange text (clickEdit existing ui), db))"

definition branchReply :: "message \<Rightarrow> js_string \<Rightarrow> page \<times> store \<Rightarrow> page \<times> store" where
  "branchReply existing text =
     (\<lambda>(ui, db). clickSend (onChange text (clickBranchReply existing ui), db))"

subsection \<open>deleteMessageRecursive (lines 106 to 126)\<close>

text \<open>
  The function calls itself for every child it selected, then deletes its own
  row; each store error is thrown and ends the whole cascade. On a table whose
  \<open>parent_id\<close> references run in a circle it never returns, so the model
  counts the depth of the calls still allowed: \<open>None\<close> is a cascade that has
  not returned within that depth. A result \<open>Some (Inl e, db)\<close> is a throw,
  \<open>Some (Inr (), db)\<close> a normal return; \<open>db\<close> is the store as the cascade left it.
  \<open>deleteChildren\<close> is the \<open>for\<close> loop of lines 116 to 120, which a missing or
  empty \<open>childMessages\<close> skips.
\<close>

fun deleteMessageRecursive :: "nat \<Rightarrow> int \<Rightarrow> store \<Rightarrow> ((store_error + unit) \<times> store) option"
  and deleteChildren :: "nat \<Rightarrow> int list \<Rightarrow> store \<Rightarrow> ((store_error + unit) \<times> store) option"
where
  "deleteMessageRecursive 0 messageId db = None"
| "deleteMessageRecursive (Suc depth) messageId db =
     (case select_children messageId db of
        (resp, db1) \<Rightarrow>
          (case error resp of
             Some e \<Rightarrow> Some (Inl e, db1)
           | None \<Rightarrow>
               (case deleteChildren depth
                       (case data resp of None \<Rightarrow> [] | Some childMessages \<Rightarrow> childMessages)
                       db1 of
                  None \<Rightarrow> None
                | Some (Inl e, db2) \<Rightarrow> Some (Inl e, db2)
                | Some (Inr u, db2) \<Rightarrow>
                    (case delete_by_id messageId db2 of
                       (resp2, db3) \<Rightarrow>
                         (case error resp2 of
                            Some deleteError \<Rightarrow> Some (Inl deleteError, db3)
                          | None \<Rightarrow> Some (Inr (), db3))))))"
| "deleteChildren depth [] db = Some (Inr (), db)"
| "deleteChildren depth (child # rest) db =
     (case deleteMessageRecursive depth child db of
        None \<Rightarrow> None
      | Some (Inl e, db1) \<Rightarrow> Some (Inl e, db1)
      | Some (Inr u, db1) \<Rightarrow> deleteChildren depth rest db1)"

text \<open>
  The words of the claims about the tree: \<open>parent_rel\<close> holds the pairs
  (id of a row, its \<open>parent_id\<close>); a message descends from \<open>n\<close> when its
  \<open>parent_id\<close> chain reaches \<open>n\<close>; \<open>deleted_ids\<close> are the ids a log deletes.
\<close>

definition parent_rel :: "message list \<Rightarrow> (int \<times> int) set" where
  "parent_rel rs = set (List.map_filter (\<lambda>r. map_option (Pair (id_msg r)) (parent_id r)) rs)"

definition descends :: "message list \<Rightarrow> int \<Rightarrow> int \<Rightarrow> bool" where
  "descends rs c n = ((c, n) \<in> (parent_rel rs)\<^sup>+)"

definition deleted_ids :: "call list \<Rightarrow> int set" where
  "deleted_ids log = {x. Delete x \<in> set log}"

subsection \<open>toggleBranchesVisibility (lines 134 to 139)\<close>

text \<open>
  \<open>branchesVisible\<close> is a \<open>Record<number, boolean>\<close>; a missing key reads as
  \<open>undefined\<close>, which is falsy, and \<open>!undefined\<close> is \<open>true\<close>.
\<close>

definition truthy :: "bool option \<Rightarrow> bool" where
  "truthy v = (case v of None \<Rightarrow> False | Some b \<Rightarrow> b)"

definition toggleBranchesVisibility :: "int \<Rightarrow> page \<Rightarrow> page" where
  "toggleBranchesVisibility messageId ui =
     ui\<lparr>branchesVisible :=
          (branchesVisible ui)(messageId \<mapsto> \<not> truthy (branchesVisible ui messageId))\<rparr>"

subsection \<open>renderMessages (lines 165 to 252)\<close>

text \<open>
  \<open>Array.prototype.sort\<close> with a comparator: \<open>a\<close> stays before \<open>b\<close> when the
  comparator's result is not positive; the sort is stable.
\<close>

definition js_sort :: "('a \<Rightarrow> 'a \<Rightarrow> int) \<Rightarrow> 'a list \<Rightarrow> 'a list" where
  "js_sort cmp xs = stable_sort (\<lambda>a b. cmp a b \<le> 0) xs"

text \<open>Lines 167 to 170: the rows of one parent, sorted by version.\<close>

definition sortedMessages :: "message list \<Rightarrow> int option \<Rightarrow> message list" where
  "sortedMessages msgs parentId =
     js_sort (\<lambda>a b. version b - version a) (filter (\<lambda>m. parent_id m = parentId) msgs)"

text \<open>
  A rendered node: the message, its indentation level, and the list of its
  rendered children when its branches are visible (\<open>None\<close> when they are
  collapsed). Rendering calls itself for the children of a visible node, which
  does not end on a snapshot with a circle of visible nodes, so the depth of
  the calls is counted as for the delete.
\<close>

datatype rendered = Rendered message nat "rendered list option"


fun renderMessages ::
  "nat \<Rightarrow> message list \<Rightarrow> (int \<rightharpoonup> bool) \<Rightarrow> int option \<Rightarrow> nat \<Rightarrow> rendered list option"
where
  "renderMessages 0 msgs visible parentId level = None"
| "renderMessages (Suc depth) msgs visible parentId level =
     those (map (\<lambda>m.
        if truthy (visible (id_msg m))
        then map_option (\<lambda>kids. Rendered m level (Some kids))
               (renderMessages depth msgs visible (Some (id_msg m)) (level + 1))
        else Some (Rendered m level None))
      (sortedMessages msgs parentId))"

text \<open>Line 267: the page renders the roots at level 0.\<close>

definition view :: "nat \<Rightarrow> page \<Rightarrow> rendered list option" where
  "view depth ui = renderMessages depth (messages ui) (branchesVisible ui) None 0"


text \<open>
  \<open>children_first rs log\<close>: wherever \<open>log\<close> issues the delete of a message,
  the deletes of all its children in the table \<open>rs\<close> were issued earlier.
  \<open>cascade_inv\<close> collects what a cascade over the ids \<open>targets\<close> that issued
  the calls \<open>new\<close> has done to the store.
\<close>

definition children_first :: "message list \<Rightarrow> call list \<Rightarrow> bool" where
  "children_first rs log =
     (\<forall>pre post m c. log = pre @ Delete m # post \<longrightarrow> (c, m) \<in> parent_rel rs \<longrightarrow> Delete c \<in> set pre)"

definition cascade_inv ::
  "int list \<Rightarrow> store \<Rightarrow> store_error + unit \<Rightarrow> store \<Rightarrow> call list \<Rightarrow> bool" where
  "cascade_inv targets db res db' new =
     (calls db' = calls db @ new \<and>
      (\<exists>gone. gone \<subseteq> deleted_ids new \<and>
         rows db' = filter (\<lambda>r. id_msg r \<notin> gone) (rows db)) \<and>
      (res = Inr () \<longrightarrow>
         rows db' = filter (\<lambda>r. id_msg r \<notin> deleted_ids new) (rows db) \<and>
         set targets \<subseteq> deleted_ids new) \<and>
      children_first (rows db) new \<and>
      (\<forall>x\<in>deleted_ids new. \<exists>c\<in>set targets. x = c \<or> descends (rows db) x c))"

text \<open>Whether the next call to the store fails.\<close>

definition next_call_fails :: "store \<Rightarrow> bool" where
  "next_call_fails db = (case faults db of [] \<Rightarrow> False | f # fs \<Rightarrow> f)"

subsection \<open>The scenario of the specification\<close>

text \<open>
  Section 8: a root "Hello", its edit "Hello v2" and the reply "Reply A" hung
  under the root, in a store that answers every call.
\<close>

definition hello :: message where
  "hello = \<lparr>content = ascii ''Hello'', parent_id = None, version = 1, id_msg = 1, created_at = 10\<rparr>"

definition hello_v2 :: message where
  "hello_v2 =
     \<lparr>content = ascii ''Hello v2'', parent_id = None, version = 2, id_msg = 2, created_at = 20\<rparr>"

definition reply_a :: message where
  "reply_a =
     \<lparr>content = ascii ''Reply A'', parent_id = Some 1, version = 1, id_msg = 3, created_at = 30\<rparr>"


definition scenario_store :: store where
  "scenario_store =
     \<lparr>rows = [hello, hello_v2, reply_a], next_id = 4, now = 40, calls = [], faults = []\<rparr>"

definition fresh_page :: page where
  "fresh_page =
     \<lparr>messages = [], input = [], selectedMessage = None, branchesVisible = Map.empty,
      errorMessage = None\<rparr>"

section \<open>Properties\<close>

subsection \<open>Strings and sorting\<close>

lemma trim_Nil_iff: "trim s = [] \<longleftrightarrow> list_all is_white_space s"
proof -
  have "trim s = [] \<longleftrightarrow> (\<forall>c\<in>set (dropWhile is_white_space s). is_white_space c)"
    by (simp add: trim_def)
  also have "\<dots> \<longleftrightarrow> dropWhile is_white_space (dropWhile is_white_space s) = []"
    by (simp only: dropWhile_eq_Nil_conv)
  also have "\<dots> \<longleftrightarrow> dropWhile is_white_space s = []"
    by (simp only: dropWhile_idem)
  also have "\<dots> \<longleftrightarrow> (\<forall>c\<in>set s. is_white_space c)"
    by (simp only: dropWhile_eq_Nil_conv)
  finally show ?thesis by (simp add: list_all_iff)
qed











lemma round_to_number_safe: "safe_integer v \<Longrightarrow> js_add v 1 = v + 1"
proof -
  assume "safe_integer v"
  then have "\<bar>v + 1\<bar> \<le> 2 ^ 53" by (simp add: safe_integer_def)
  then show ?thesis by (simp add: js_add_def round_to_number_def)
qed

lemma bit_length_54:
  "bit_length 9007199254740993 = 54" "bit_length 9007199254740995 = 54"
  by (simp_all add: bit_length.simps)

lemma js_add_beyond_safe:
  "js_add (2 ^ 53) 1 = 2 ^ 53" "js_add (2 ^ 53 + 2) 1 = 2 ^ 53 + 4"
  "js_add (- (2 ^ 53) - 2) 1 = - (2 ^ 53)"
  by (simp_all add: js_add_def round_to_number_def Let_def bit_length_54)







subsection \<open>Visibility\<close>

lemma truthy_toggle_twice:
  "truthy (branchesVisible (toggleBranchesVisibility i (toggleBranchesVisibility i ui)) x)
     = truthy (branchesVisible ui x)"
  by (simp add: toggleBranchesVisibility_def truthy_def)

lemma renderMessages_truthy_cong:
  assumes "\<And>x. truthy (v x) = truthy (w x)"
  shows "renderMessages depth msgs v parentId level = renderMessages depth msgs w parentId level"
proof (induction depth arbitrary: parentId level)
  case 0
  show ?case by simp
next
  case (Suc depth)
  show ?case by (simp add: assms Suc.IH cong: if_cong)
qed

subsection \<open>The cascade\<close>

lemma select_children_facts:
  assumes "select_children m db = (resp, db1)"
  shows "rows db1 = rows db" and "calls db1 = calls db @ [SelectChildren m]"
    and "error resp = None \<Longrightarrow>
      (case data resp of None \<Rightarrow> [] | Some cs \<Rightarrow> cs) =
        map id_msg (filter (\<lambda>r. parent_id r = Some m) (rows db))"
  using assms
  by (auto simp: select_children_def issue_def succeeded_def failed_def
      split: list.splits bool.splits prod.splits)

lemma delete_by_id_facts:
  assumes "delete_by_id m db = (resp, db')"
  shows "calls db' = calls db @ [Delete m]"
    and "error resp = None \<Longrightarrow> rows db' = filter (\<lambda>r. id_msg r \<noteq> m) (rows db)"
    and "error resp = Some e \<Longrightarrow> rows db' = rows db"
  using assms
  by (auto simp: delete_by_id_def issue_def succeeded_def failed_def
      split: list.splits bool.splits prod.splits)

lemma in_parent_rel:
  "(c, m) \<in> parent_rel rs \<longleftrightarrow> (\<exists>r\<in>set rs. id_msg r = c \<and> parent_id r = Some m)"
  by (induction rs) (auto simp: parent_rel_def split: option.splits)

lemma parent_rel_mono: "set rs \<subseteq> set rs' \<Longrightarrow> parent_rel rs \<subseteq> parent_rel rs'"
  by (auto simp: in_parent_rel subset_iff)

lemma descends_mono: "set rs \<subseteq> set rs' \<Longrightarrow> descends rs c n \<Longrightarrow> descends rs' c n"
  unfolding descends_def using trancl_mono [OF _ parent_rel_mono] by blast

lemma descends_child: "(c, m) \<in> parent_rel rs \<Longrightarrow> descends rs c m"
  by (simp add: descends_def)

lemma descends_step: "descends rs x c \<Longrightarrow> (c, m) \<in> parent_rel rs \<Longrightarrow> descends rs x m"
  unfolding descends_def by (rule trancl_into_trancl)

lemma deleted_ids_simps [simp]:
  "deleted_ids [] = {}"
  "deleted_ids (a @ b) = deleted_ids a \<union> deleted_ids b"
  "deleted_ids (Delete m # l) = insert m (deleted_ids l)"
  "deleted_ids (SelectChildren m # l) = deleted_ids l"
  by (auto simp: deleted_ids_def)

lemma in_deleted_ids: "x \<in> deleted_ids l \<longleftrightarrow> Delete x \<in> set l"
  by (simp add: deleted_ids_def)

lemma split_append_Cons:
  "a @ b = pre @ x # post \<Longrightarrow>
     (\<exists>q. a = pre @ x # q \<and> post = q @ b) \<or> (\<exists>p. pre = a @ p \<and> b = p @ x # post)"
  by (auto simp: append_eq_append_conv2 append_eq_Cons_conv)

lemma cascade_inv_Nil: "cascade_inv [] db (Inr ()) db []"
  by (simp add: cascade_inv_def children_first_def)

lemma cascade_inv_gone:
  "cascade_inv targets db res db' new \<Longrightarrow>
     \<exists>gone. gone \<subseteq> deleted_ids new \<and> rows db' = filter (\<lambda>r. id_msg r \<notin> gone) (rows db)"
  by (simp add: cascade_inv_def)

lemma cascade_inv_rows_subset:
  "cascade_inv targets db res db' new \<Longrightarrow> set (rows db') \<subseteq> set (rows db)"
  by (auto simp: cascade_inv_def)

lemma cascade_inv_fail_first:
  "cascade_inv [c] db (Inl e) db1 a \<Longrightarrow> cascade_inv (c # cs) db (Inl e) db1 a"
  by (auto simp: cascade_inv_def)

lemma children_first_seq:
  assumes a: "children_first rs a" and b: "children_first rs1 b"
    and rows: "set rs1 = {r \<in> set rs. id_msg r \<notin> deleted_ids a}"
  shows "children_first rs (a @ b)"
  unfolding children_first_def
proof (intro allI impI)
  fix pre post m c
  assume eq: "a @ b = pre @ Delete m # post" and cm: "(c, m) \<in> parent_rel rs"
  from split_append_Cons [OF eq]
  show "Delete c \<in> set pre"
  proof
    assume "\<exists>q. a = pre @ Delete m # q \<and> post = q @ b"
    with a cm show ?thesis unfolding children_first_def by blast
  next
    assume "\<exists>p. pre = a @ p \<and> b = p @ Delete m # post"
    then obtain p where p: "pre = a @ p" "b = p @ Delete m # post" by blast
    from cm obtain r where r: "r \<in> set rs" "id_msg r = c" "parent_id r = Some m"
      by (auto simp: in_parent_rel)
    show ?thesis
    proof (cases "r \<in> set rs1")
      case True
      with r have "(c, m) \<in> parent_rel rs1" by (auto simp: in_parent_rel)
      with b p have "Delete c \<in> set p" unfolding children_first_def by blast
      with p show ?thesis by simp
    next
      case False
      with r rows have "Delete c \<in> set a" by (auto simp: in_deleted_ids)
      with p show ?thesis by simp
    qed
  qed
qed

lemma cascade_inv_seq:
  assumes a: "cascade_inv [c] db (Inr ()) db1 a" and b: "cascade_inv cs db1 res db' b"
  shows "cascade_inv (c # cs) db res db' (a @ b)"
proof -
  from a have a1: "calls db1 = calls db @ a"
    and a2: "rows db1 = filter (\<lambda>r. id_msg r \<notin> deleted_ids a) (rows db)"
    and a3: "c \<in> deleted_ids a" and a4: "children_first (rows db) a"
    and a5: "\<forall>x\<in>deleted_ids a. x = c \<or> descends (rows db) x c"
    by (simp_all add: cascade_inv_def)
  from cascade_inv_gone [OF b] obtain gone where
    g: "gone \<subseteq> deleted_ids b" "rows db' = filter (\<lambda>r. id_msg r \<notin> gone) (rows db1)" by blast
  from b have b1: "calls db' = calls db1 @ b"
    and b3: "res = Inr () \<longrightarrow> rows db' = filter (\<lambda>r. id_msg r \<notin> deleted_ids b) (rows db1) \<and>
         set cs \<subseteq> deleted_ids b"
    and b4: "children_first (rows db1) b"
    and b5: "\<forall>x\<in>deleted_ids b. \<exists>c\<in>set cs. x = c \<or> descends (rows db1) x c"
    by (simp_all add: cascade_inv_def)
  have sub: "set (rows db1) \<subseteq> set (rows db)" using a2 by auto
  have c1: "calls db' = calls db @ a @ b" using a1 b1 by simp
  have "deleted_ids a \<union> gone \<subseteq> deleted_ids (a @ b)" using g(1) by auto
  moreover have "rows db' = filter (\<lambda>r. id_msg r \<notin> deleted_ids a \<union> gone) (rows db)"
    using g(2) a2 by (auto simp: conj_commute)
  ultimately have c2: "\<exists>gone. gone \<subseteq> deleted_ids (a @ b) \<and>
      rows db' = filter (\<lambda>r. id_msg r \<notin> gone) (rows db)" by blast
  have c3: "res = Inr () \<longrightarrow>
      rows db' = filter (\<lambda>r. id_msg r \<notin> deleted_ids (a @ b)) (rows db) \<and>
      set (c # cs) \<subseteq> deleted_ids (a @ b)"
    using a2 a3 b3 by (auto simp: conj_commute)
  have c4: "children_first (rows db) (a @ b)"
    by (rule children_first_seq [OF a4 b4]) (simp add: a2)
  have c5: "\<forall>x\<in>deleted_ids (a @ b). \<exists>c'\<in>set (c # cs). x = c' \<or> descends (rows db) x c'"
    using a5 b5 descends_mono [OF sub] by fastforce
  from c1 c2 c3 c4 c5 show ?thesis unfolding cascade_inv_def by blast
qed


lemma cascade_inv_select_fail:
  assumes "select_children m db = (resp, db1)"
  shows "cascade_inv [m] db (Inl e) db1 [SelectChildren m]"
proof -
  note s = select_children_facts(1,2) [OF assms]
  have "{} \<subseteq> deleted_ids [SelectChildren m] \<and>
      rows db1 = filter (\<lambda>r. id_msg r \<notin> {}) (rows db)" using s by simp
  then have "\<exists>gone. gone \<subseteq> deleted_ids [SelectChildren m] \<and>
      rows db1 = filter (\<lambda>r. id_msg r \<notin> gone) (rows db)" by blast
  then show ?thesis
    using s by (auto simp: cascade_inv_def children_first_def Cons_eq_append_conv)
qed

lemma children_first_Select:
  "children_first rs b \<Longrightarrow> children_first rs (SelectChildren m # b)"
  unfolding children_first_def
  by (auto simp: Cons_eq_append_conv)

lemma cascade_inv_children_fail:
  assumes sel: "select_children m db = (resp, db1)" and ok: "error resp = None"
    and kids: "ids = (case data resp of None \<Rightarrow> [] | Some cs \<Rightarrow> cs)"
    and b: "cascade_inv ids db1 (Inl e) db2 b"
  shows "cascade_inv [m] db (Inl e) db2 (SelectChildren m # b)"
proof -
  note s = select_children_facts [OF sel]
  have ids: "\<forall>c\<in>set ids. (c, m) \<in> parent_rel (rows db)"
    using s(3) [OF ok] kids by (auto simp: in_parent_rel)
  from b have b1: "calls db2 = calls db1 @ b"
    and b2: "\<exists>gone. gone \<subseteq> deleted_ids b \<and> rows db2 = filter (\<lambda>r. id_msg r \<notin> gone) (rows db1)"
    and b4: "children_first (rows db1) b"
    and b5: "\<forall>x\<in>deleted_ids b. \<exists>c\<in>set ids. x = c \<or> descends (rows db1) x c"
    by (simp_all add: cascade_inv_def)
  have c5: "\<forall>x\<in>deleted_ids b. descends (rows db) x m"
    using b5 ids s(1) by (metis descends_child descends_step)
  show ?thesis
    unfolding cascade_inv_def
    using b1 b2 s(1,2) children_first_Select [OF b4] c5 by simp
qed

lemma children_first_node:
  assumes b: "children_first rs b"
    and kids: "\<forall>c. (c, m) \<in> parent_rel rs \<longrightarrow> Delete c \<in> set b"
  shows "children_first rs (SelectChildren m # b @ [Delete m])"
  unfolding children_first_def
proof (intro allI impI)
  fix pre post m' c
  assume eq: "SelectChildren m # b @ [Delete m] = pre @ Delete m' # post"
    and cm: "(c, m') \<in> parent_rel rs"
  from eq obtain pre' where pre: "pre = SelectChildren m # pre'"
    and eq': "b @ [Delete m] = pre' @ Delete m' # post"
    by (cases pre) auto
  from split_append_Cons [OF eq']
  have "Delete c \<in> set pre'"
  proof
    assume "\<exists>q. b = pre' @ Delete m' # q \<and> post = q @ [Delete m]"
    with b cm show ?thesis unfolding children_first_def by blast
  next
    assume "\<exists>p. pre' = b @ p \<and> [Delete m] = p @ Delete m' # post"
    then obtain p where p: "pre' = b @ p" "[Delete m] = p @ Delete m' # post" by blast
    then have "m' = m" by (cases p) auto
    with kids cm p show ?thesis by simp
  qed
  with pre show "Delete c \<in> set pre" by simp
qed

lemma cascade_inv_node:
  assumes sel: "select_children m db = (resp, db1)" and ok: "error resp = None"
    and kids: "ids = (case data resp of None \<Rightarrow> [] | Some cs \<Rightarrow> cs)"
    and b: "cascade_inv ids db1 (Inr ()) db2 b"
    and del: "delete_by_id m db2 = (r, db3)"
  shows "cascade_inv [m] db (case error r of Some e \<Rightarrow> Inl e | None \<Rightarrow> Inr ()) db3
           (SelectChildren m # b @ [Delete m])"
proof -
  note s = select_children_facts [OF sel]
  note d = delete_by_id_facts [OF del]
  have ids: "set ids = {c. (c, m) \<in> parent_rel (rows db)}"
    using s(3) [OF ok] kids by (auto simp: in_parent_rel)
  from b have b1: "calls db2 = calls db1 @ b"
    and b3: "rows db2 = filter (\<lambda>r. id_msg r \<notin> deleted_ids b) (rows db1)"
      "set ids \<subseteq> deleted_ids b"
    and b4: "children_first (rows db1) b"
    and b5: "\<forall>x\<in>deleted_ids b. \<exists>c\<in>set ids. x = c \<or> descends (rows db1) x c"
    by (simp_all add: cascade_inv_def)
  have c1: "calls db3 = calls db @ SelectChildren m # b @ [Delete m]"
    using s(2) b1 d(1) by simp
  have c2: "\<exists>gone. gone \<subseteq> deleted_ids (SelectChildren m # b @ [Delete m]) \<and>
      rows db3 = filter (\<lambda>r. id_msg r \<notin> gone) (rows db)"
  proof (cases "error r")
    case (Some e)
    with d(3) b3(1) s(1)
    have "deleted_ids b \<subseteq> deleted_ids (SelectChildren m # b @ [Delete m]) \<and>
      rows db3 = filter (\<lambda>r. id_msg r \<notin> deleted_ids b) (rows db)" by auto
    then show ?thesis by blast
  next
    case None
    with d(2) b3(1) s(1)
    have "insert m (deleted_ids b) \<subseteq> deleted_ids (SelectChildren m # b @ [Delete m]) \<and>
      rows db3 = filter (\<lambda>r. id_msg r \<notin> insert m (deleted_ids b)) (rows db)"
      by (auto simp: conj_commute)
    then show ?thesis by blast
  qed
  have c3: "(case error r of Some e \<Rightarrow> Inl e | None \<Rightarrow> Inr ()) = Inr () \<longrightarrow>
      rows db3 = filter (\<lambda>r. id_msg r \<notin> deleted_ids (SelectChildren m # b @ [Delete m])) (rows db) \<and>
      set [m] \<subseteq> deleted_ids (SelectChildren m # b @ [Delete m])"
    using d(2) b3(1) s(1) by (cases "error r") (auto simp: conj_commute)
  have c4: "children_first (rows db) (SelectChildren m # b @ [Delete m])"
    using b4 b3(2) ids s(1) by (intro children_first_node) (auto simp: in_deleted_ids)
  have c5: "\<forall>x\<in>deleted_ids b. descends (rows db) x m"
    using b5 ids s(1) by (metis descends_child descends_step mem_Collect_eq)
  from c1 c2 c3 c4 c5 show ?thesis unfolding cascade_inv_def by simp
qed

lemma cascade_inv_run:
  "deleteMessageRecursive depth m db = Some (res, db') \<Longrightarrow> \<exists>new. cascade_inv [m] db res db' new"
  "deleteChildren depth ids db = Some (res, db') \<Longrightarrow> \<exists>new. cascade_inv ids db res db' new"
proof (induction depth m db and depth ids db arbitrary: res db' and res db'
    rule: deleteMessageRecursive_deleteChildren.induct)
  case (1 messageId db)
  then show ?case by simp
next
  case (2 depth messageId db)
  obtain resp db1 where sel: "select_children messageId db = (resp, db1)" by force
  define ids where "ids = (case data resp of None \<Rightarrow> [] | Some cs \<Rightarrow> cs)"
  show ?case
  proof (cases "error resp")
    case (Some e)
    with sel "2.prems" have "res = Inl e" "db' = db1" by auto
    with cascade_inv_select_fail [OF sel] show ?thesis by blast
  next
    case None
    with "2.prems" sel obtain r2 db2 where kids: "deleteChildren depth ids db1 = Some (r2, db2)"
      by (auto simp: ids_def split: option.splits)
    from "2.IH" [OF sel [symmetric] None kids [unfolded ids_def]]
    obtain b where b: "cascade_inv ids db1 r2 db2 b" unfolding ids_def by blast
    show ?thesis
    proof (cases r2)
      case (Inl e)
      with "2.prems" sel None kids b
      have "cascade_inv ids db1 (Inl e) db' b" "res = Inl e" by (auto simp: ids_def)
      with cascade_inv_children_fail [OF sel None ids_def] show ?thesis by blast
    next
      case r2: (Inr u)
      obtain r3 db3 where del: "delete_by_id messageId db2 = (r3, db3)" by force
      from b r2 have "cascade_inv ids db1 (Inr ()) db2 b" by simp
      from cascade_inv_node [OF sel None ids_def this del]
      have "cascade_inv [messageId] db (case error r3 of Some e \<Rightarrow> Inl e | None \<Rightarrow> Inr ()) db3
           (SelectChildren messageId # b @ [Delete messageId])" .
      moreover from "2.prems" sel None kids r2 del
      have "res = (case error r3 of Some e \<Rightarrow> Inl e | None \<Rightarrow> Inr ())" "db' = db3"
        by (auto simp: ids_def split: option.splits)
      ultimately show ?thesis by blast
    qed
  qed
next
  case (3 depth db)
  then show ?case using cascade_inv_Nil by auto
next
  case (4 depth child rest db)
  from "4.prems" obtain r1 db1 where one: "deleteMessageRecursive depth child db = Some (r1, db1)"
    by (auto split: option.splits)
  from "4.IH"(1) [OF one] obtain a where a: "cascade_inv [child] db r1 db1 a" by blast
  show ?case
  proof (cases r1)
    case (Inl e)
    with "4.prems" one a have "cascade_inv [child] db (Inl e) db' a" "res = Inl e"
      by auto
    with cascade_inv_fail_first show ?thesis by blast
  next
    case (Inr u)
    with "4.prems" one have rest: "deleteChildren depth rest db1 = Some (res, db')" by simp
    from "4.IH"(2) [OF one refl Inr rest] obtain b where b: "cascade_inv rest db1 res db' b" by blast
    from a Inr have "cascade_inv [child] db (Inr ()) db1 a" by simp
    from cascade_inv_seq [OF this b] show ?thesis by blast
  qed
qed

lemma children_first_descends:
  assumes cf: "children_first rs log" and d: "descends rs c m"
  shows "log = pre @ Delete m # post \<Longrightarrow> Delete c \<in> set pre"
  using d unfolding descends_def
proof (induction arbitrary: pre post rule: trancl_induct)
  case (base y)
  with cf show ?case unfolding children_first_def by blast
next
  case (step y z)
  from cf step.hyps(2) step.prems have "Delete y \<in> set pre"
    unfolding children_first_def by blast
  then obtain p1 p2 where p: "pre = p1 @ Delete y # p2" by (auto dest: split_list)
  with step.prems have "log = p1 @ Delete y # (p2 @ Delete z # post)" by simp
  from step.IH [OF this] p show ?case by simp
qed

lemma children_first_closed:
  assumes "children_first rs log" and "descends rs c m" and "m \<in> deleted_ids log"
  shows "c \<in> deleted_ids log"
proof -
  from assms(3) obtain pre post where l: "log = pre @ Delete m # post"
    by (auto simp: in_deleted_ids dest: split_list)
  from children_first_descends [OF assms(1,2) l] l show ?thesis
    by (simp add: in_deleted_ids)
qed

lemma children_first_no_cycle:
  assumes "children_first rs log" and "m \<in> deleted_ids log"
  shows "\<not> descends rs m m"
proof
  assume d: "descends rs m m"
  from assms(2) obtain pre post where l: "log = pre @ Delete m # post" "Delete m \<notin> set pre"
    by (auto simp: in_deleted_ids dest: split_list_first)
  from children_first_descends [OF assms(1) d l(1)] l(2) show False by simp
qed

lemma depth_mono:
  "deleteMessageRecursive d m db = Some out \<Longrightarrow> d \<le> d' \<Longrightarrow>
     deleteMessageRecursive d' m db = Some out"
  "deleteChildren d ids db = Some out \<Longrightarrow> d \<le> d' \<Longrightarrow> deleteChildren d' ids db = Some out"
proof (induction d m db and d ids db arbitrary: out d' and out d'
    rule: deleteMessageRecursive_deleteChildren.induct)
  case (1 messageId db)
  then show ?case by simp
next
  case (2 depth messageId db)
  from "2.prems"(2) obtain e' where d': "d' = Suc e'" "depth \<le> e'" by (cases d') auto
  obtain resp db1 where sel: "select_children messageId db = (resp, db1)" by force
  define ids where "ids = (case data resp of None \<Rightarrow> [] | Some cs \<Rightarrow> cs)"
  show ?case
  proof (cases "error resp")
    case (Some e)
    with sel "2.prems"(1) d' show ?thesis by simp
  next
    case None
    with "2.prems"(1) sel obtain o2 where kids: "deleteChildren depth ids db1 = Some o2"
      by (auto simp: ids_def split: option.splits)
    from "2.IH" [OF sel [symmetric] None kids [unfolded ids_def] d'(2)]
    have "deleteChildren e' ids db1 = Some o2" by (simp add: ids_def)
    with kids "2.prems"(1) sel None d' show ?thesis by (simp add: ids_def)
  qed
next
  case (3 depth db)
  then show ?case by simp
next
  case (4 depth child rest db)
  from "4.prems"(1) obtain r1 db1 where one: "deleteMessageRecursive depth child db = Some (r1, db1)"
    by (auto split: option.splits)
  from "4.IH"(1) [OF one "4.prems"(2)]
  have one': "deleteMessageRecursive d' child db = Some (r1, db1)" .
  show ?case
  proof (cases r1)
    case (Inl e)
    with "4.prems"(1) one have "out = (Inl e, db1)" by simp
    with one' Inl show ?thesis by simp
  next
    case (Inr u)
    with "4.prems"(1) one have rest: "deleteChildren depth rest db1 = Some out" by simp
    from "4.IH"(2) [OF one refl Inr rest "4.prems"(2)] one' Inr show ?thesis by simp
  qed
qed

lemma deleteChildren_returns:
  assumes kids: "\<forall>c\<in>set ids. \<forall>db. set (rows db) \<subseteq> set R \<longrightarrow>
      (\<exists>d out. deleteMessageRecursive d c db = Some out)"
  shows "set (rows db) \<subseteq> set R \<Longrightarrow> \<exists>d out. deleteChildren d ids db = Some out"
  using kids
proof (induction ids arbitrary: db)
  case Nil
  then show ?case by simp
next
  case (Cons c cs)
  from Cons.prems obtain d1 r1 db1 where one: "deleteMessageRecursive d1 c db = Some (r1, db1)"
    by fastforce
  show ?case
  proof (cases r1)
    case (Inl e)
    with one have "deleteChildren d1 (c # cs) db = Some (Inl e, db1)" by simp
    then show ?thesis by blast
  next
    case (Inr u)
    from cascade_inv_run(1) [OF one] have "set (rows db1) \<subseteq> set (rows db)"
      by (auto dest: cascade_inv_rows_subset)
    with Cons.prems(1) have "set (rows db1) \<subseteq> set R" by blast
    from Cons.IH [OF this] Cons.prems(2)
    obtain d2 out where rest: "deleteChildren d2 cs db1 = Some out" by auto
    have "deleteMessageRecursive (max d1 d2) c db = Some (r1, db1)"
      by (rule depth_mono(1) [OF one]) simp
    moreover have "deleteChildren (max d1 d2) cs db1 = Some out"
      by (rule depth_mono(2) [OF rest]) simp
    ultimately have "deleteChildren (max d1 d2) (c # cs) db = Some out"
      using Inr by simp
    then show ?thesis by blast
  qed
qed

lemma deleteMessageRecursive_returns:
  assumes ac: "acyclic (parent_rel R)"
  shows "\<forall>db. set (rows db) \<subseteq> set R \<longrightarrow> (\<exists>d out. deleteMessageRecursive d m db = Some out)"
proof -
  have "finite (parent_rel R)" by (simp add: parent_rel_def)
  with ac have "wf (parent_rel R)" by (simp add: finite_acyclic_wf)
  then show ?thesis
  proof (induction m rule: wf_induct_rule)
    case (less m)
    show ?case
    proof (intro allI impI)
      fix db :: store
      assume sub: "set (rows db) \<subseteq> set R"
      obtain resp db1 where sel: "select_children m db = (resp, db1)" by force
      define ids where "ids = (case data resp of None \<Rightarrow> [] | Some cs \<Rightarrow> cs)"
      note s = select_children_facts [OF sel]
      show "\<exists>d out. deleteMessageRecursive d m db = Some out"
      proof (cases "error resp")
        case (Some e)
        with sel have "deleteMessageRecursive (Suc 0) m db = Some (Inl e, db1)" by simp
        then show ?thesis by blast
      next
        case None
        from s(3) [OF None] sub have "\<forall>c\<in>set ids. (c, m) \<in> parent_rel R"
          by (auto simp: in_parent_rel ids_def)
        with less.IH have "\<forall>c\<in>set ids. \<forall>db. set (rows db) \<subseteq> set R \<longrightarrow>
            (\<exists>d out. deleteMessageRecursive d c db = Some out)" by blast
        from deleteChildren_returns [OF this, of db1] s(1) sub
        obtain d r2 db2 where kids: "deleteChildren d ids db1 = Some (r2, db2)" by auto
        obtain r3 db3 where del: "delete_by_id m db2 = (r3, db3)" by force
        from sel None kids del have "\<exists>out. deleteMessageRecursive (Suc d) m db = Some out"
          by (cases r2; cases "error r3") (simp_all add: ids_def)
        then show ?thesis by blast
      qed
    qed
  qed
qed

lemma scenario_cascade:
  "deleteMessageRecursive 2 1 scenario_store =
     Some (Inr (),
       \<lparr>rows = [hello_v2], next_id = 4, now = 40,
        calls = [SelectChildren 1, SelectChildren 3, Delete 3, Delete 1], faults = []\<rparr>)"
  by (simp add: numeral_2_eq_2 select_children_def delete_by_id_def issue_def scenario_store_def
      succeeded_def failed_def hello_def hello_v2_def reply_a_def)

lemma scenario_reply_descends: "descends (rows scenario_store) (id_msg reply_a) 1"
  by (rule descends_child) (simp add: in_parent_rel scenario_store_def reply_a_def)

lemma parent_before_child_acyclic:
  assumes "\<forall>r\<in>set rs. \<forall>p. parent_id r = Some p \<longrightarrow> p < id_msg r"
  shows "acyclic (parent_rel rs)"
proof -
  have "y < x" if "(x, y) \<in> (parent_rel rs)\<^sup>+" for x y
    using that
  proof (induction rule: trancl_induct)
    case (base y)
    with assms show ?case by (auto simp: in_parent_rel)
  next
    case (step y z)
    from step.hyps(2) assms have "z < y" by (auto simp: in_parent_rel)
    with step.IH show ?case by simp
  qed
  then show ?thesis by (fastforce simp: acyclic_def)
qed

section \<open>The claims\<close>

subsection \<open>Sending, editing, branching\<close>

text \<open>
  C6. Whatever the page state, the store and the message the send is for: when
  the text in the input box is empty or consists of white space only,
  \<open>sendMessage\<close> changes nothing. The store is the same, so no insert was issued
  (its call log is part of it), and the page is the same, so no error banner
  was set.
\<close>

theorem send_blank_is_noop:
  "list_all is_white_space (input ui) \<Longrightarrow> sendMessage parentMessage (ui, db) = (ui, db)"
  by (simp add: sendMessage_def trim_Nil_iff)

theorem send_blank_is_noop_witness:
  "list_all is_white_space (input (fresh_page\<lparr>input := ascii ''  ''\<rparr>)) \<and>
   sendMessage (Some hello) (fresh_page\<lparr>input := ascii ''  ''\<rparr>, scenario_store)
     = (fresh_page\<lparr>input := ascii ''  ''\<rparr>, scenario_store)"
proof -
  have h: "list_all is_white_space (input (fresh_page\<lparr>input := ascii ''  ''\<rparr>))"
    by (simp add: ascii_def is_white_space_def)
  from send_blank_is_noop [OF h] h show ?thesis by blast
qed

text \<open>
  C4. Editing an existing row \<open>E\<close> whose version is a safe integer, with a text
  \<open>T\<close> that is not empty or white space only (the texts the empty-text check
  lets through), issues exactly one call, the insert of
  \<open>{content = T, parent_id = E.parent_id, version = E.version + 1}\<close>.
  The table afterwards is the old table, every row as it was and \<open>E\<close> among
  them, followed by the new row when the store accepted the insert.
\<close>

theorem edit_appends_new_version:
  assumes "\<not> list_all is_white_space T" and "E \<in> set (rows db)"
    and "safe_integer (version E)"
    and "editMessage E T (ui, db) = (ui', db')"
  shows "calls db' =
           calls db @ [Insert \<lparr>content = T, parent_id = parent_id E, version = version E + 1\<rparr>] \<and>
         rows db' =
           rows db @
             (if next_call_fails db then []
              else [\<lparr>content = T, parent_id = parent_id E, version = version E + 1,
                     id_msg = next_id db, created_at = now db\<rparr>]) \<and>
         E \<in> set (rows db')"
  using assms round_to_number_safe [of "version E"]
  by (auto simp: editMessage_def clickSend_def onChange_def clickEdit_def sendMessage_def
      trim_Nil_iff insert_row_def issue_def next_call_fails_def succeeded_def failed_def
      split: list.splits if_splits bool.splits prod.splits)

theorem edit_appends_new_version_witness:
  "\<not> list_all is_white_space (ascii ''Hello v3'') \<and> hello_v2 \<in> set (rows scenario_store) \<and>
   safe_integer (version hello_v2) \<and>
   rows (snd (editMessage hello_v2 (ascii ''Hello v3'') (fresh_page, scenario_store))) =
     [hello, hello_v2, reply_a,
      \<lparr>content = ascii ''Hello v3'', parent_id = None, version = 3, id_msg = 4, created_at = 40\<rparr>]"
proof -
  have h1: "\<not> list_all is_white_space (ascii ''Hello v3'')"
    by (simp add: ascii_def is_white_space_def)
  have h2: "hello_v2 \<in> set (rows scenario_store)" by (simp add: scenario_store_def)
  have h3: "safe_integer (version hello_v2)" by (simp add: safe_integer_def hello_v2_def)
  have h4: "editMessage hello_v2 (ascii ''Hello v3'') (fresh_page, scenario_store) =
     (fst (editMessage hello_v2 (ascii ''Hello v3'') (fresh_page, scenario_store)),
      snd (editMessage hello_v2 (ascii ''Hello v3'') (fresh_page, scenario_store)))" by simp
  from edit_appends_new_version [OF h1 h2 h3 h4] h1 h2 h3 show ?thesis
    by (simp add: next_call_fails_def scenario_store_def hello_v2_def)
qed

text \<open>
  C1. What Branch Reply does on the root "Hello" (id 1, version 1, no parent)
  with the text "Reply A": the row sent to the store has no parent and version
  2. It is the row an edit of "Hello" would insert, not a child of id 1 with
  version 1.
\<close>

theorem branch_reply_inserts_next_version:
  "snd (branchReply hello (ascii ''Reply A'')
          (fresh_page, \<lparr>rows = [hello], next_id = 2, now = 20, calls = [], faults = []\<rparr>)) =
     \<lparr>rows = [hello,
              \<lparr>content = ascii ''Reply A'', parent_id = None, version = 2, id_msg = 2,
               created_at = 20\<rparr>],
      next_id = 3, now = 20,
      calls = [Insert \<lparr>content = ascii ''Reply A'', parent_id = None, version = 2\<rparr>],
      faults = []\<rparr>"
  by (simp add: branchReply_def clickSend_def onChange_def clickBranchReply_def sendMessage_def
      fresh_page_def hello_def trim_def ascii_def is_white_space_def insert_row_def issue_def
      succeeded_def js_add_def round_to_number_def)

subsection \<open>Fetching and rendering\<close>

text \<open>
  C8. When the full select fails, \<open>fetchMessages\<close> sets the error banner and
  changes nothing else of the page: the snapshot \<open>messages\<close> is the one from
  before.
\<close>

theorem fetch_failure_keeps_snapshot:
  "error (fst (select_all_ordered db)) = Some e \<Longrightarrow>
   fetchMessages (ui, db) =
     (ui\<lparr>errorMessage := Some (ascii ''Error fetching messages. Please try again.'')\<rparr>,
      snd (select_all_ordered db))"
  by (cases "select_all_ordered db") (simp add: fetchMessages_def)

theorem fetch_failure_keeps_snapshot_witness:
  "error (fst (select_all_ordered (scenario_store\<lparr>faults := [True]\<rparr>))) = Some StoreError \<and>
   messages (fst (fetchMessages (fresh_page\<lparr>messages := [hello]\<rparr>, scenario_store\<lparr>faults := [True]\<rparr>)))
     = [hello] \<and>
   errorMessage (fst (fetchMessages (fresh_page\<lparr>messages := [hello]\<rparr>, scenario_store\<lparr>faults := [True]\<rparr>)))
     = Some (ascii ''Error fetching messages. Please try again.'')"
proof -
  have h: "error (fst (select_all_ordered (scenario_store\<lparr>faults := [True]\<rparr>))) = Some StoreError"
    by (simp add: select_all_ordered_def issue_def failed_def)
  from fetch_failure_keeps_snapshot [OF h, of "fresh_page\<lparr>messages := [hello]\<rparr>"] h
  show ?thesis by simp
qed

text \<open>
  C9. For every snapshot, visibility map, node id, parent, level and depth of
  rendering: after toggling the visibility of a node twice, \<open>renderMessages\<close>
  gives the output it gave before.
\<close>

theorem toggle_twice_same_view:
  "renderMessages depth (messages (toggleBranchesVisibility i (toggleBranchesVisibility i ui)))
       (branchesVisible (toggleBranchesVisibility i (toggleBranchesVisibility i ui))) parentId level
   = renderMessages depth (messages ui) (branchesVisible ui) parentId level"
proof -
  have "messages (toggleBranchesVisibility i (toggleBranchesVisibility i ui)) = messages ui"
    by (simp add: toggleBranchesVisibility_def)
  then show ?thesis
    using renderMessages_truthy_cong [OF truthy_toggle_twice] by simp
qed

theorem toggle_twice_same_view_witness:
  "view 2 (toggleBranchesVisibility 1 (toggleBranchesVisibility 1
       (fresh_page\<lparr>messages := [hello_v2, hello, reply_a]\<rparr>))) =
   Some [Rendered hello_v2 0 None, Rendered hello 0 None]"
proof -
  let ?p = "fresh_page\<lparr>messages := [hello_v2, hello, reply_a]\<rparr>"
  have "view 2 (toggleBranchesVisibility 1 (toggleBranchesVisibility 1 ?p)) =
      renderMessages 2 (messages ?p) (branchesVisible ?p) None 0"
    unfolding view_def by (rule toggle_twice_same_view)
  also have "\<dots> = Some [Rendered hello_v2 0 None, Rendered hello 0 None]"
    by (simp add: numeral_2_eq_2 fresh_page_def sortedMessages_def js_sort_def truthy_def
        hello_def hello_v2_def reply_a_def)
  finally show ?thesis .
qed




subsection \<open>The cascading delete\<close>

text \<open>
  C2. When the cascading delete of \<open>N\<close> has returned normally, every row \<open>M\<close> of
  the table it started from that is \<open>N\<close> itself or whose \<open>parent_id\<close> chain
  reaches \<open>N\<close> is gone: neither \<open>M\<close> nor any row with its id is in the table.
\<close>

theorem cascade_removes_subtree:
  assumes "deleteMessageRecursive depth N db = Some (Inr (), db')"
    and "M \<in> set (rows db)"
    and "id_msg M = N \<or> descends (rows db) (id_msg M) N"
  shows "M \<notin> set (rows db') \<and> id_msg M \<notin> id_msg ` set (rows db')"
proof -
  from cascade_inv_run(1) [OF assms(1)] obtain new where
    inv: "cascade_inv [N] db (Inr ()) db' new" by blast
  then have rows: "rows db' = filter (\<lambda>r. id_msg r \<notin> deleted_ids new) (rows db)"
    and n: "N \<in> deleted_ids new" and cf: "children_first (rows db) new"
    by (simp_all add: cascade_inv_def)
  from assms(3) n children_first_closed [OF cf _ n] have "id_msg M \<in> deleted_ids new"
    by blast
  with rows show ?thesis by auto
qed

theorem cascade_removes_subtree_witness:
  "reply_a \<in> set (rows scenario_store) \<and>
   (id_msg reply_a = 1 \<or> descends (rows scenario_store) (id_msg reply_a) 1) \<and>
   reply_a \<notin> set (rows (snd (the (deleteMessageRecursive 2 1 scenario_store)))) \<and>
   rows (snd (the (deleteMessageRecursive 2 1 scenario_store))) = [hello_v2]"
proof -
  have h2: "reply_a \<in> set (rows scenario_store)" by (simp add: scenario_store_def)
  have h3: "id_msg reply_a = 1 \<or> descends (rows scenario_store) (id_msg reply_a) 1"
    using scenario_reply_descends by simp
  from cascade_removes_subtree [OF scenario_cascade h2 h3] h2 h3 show ?thesis
    by (simp add: scenario_cascade)
qed

text \<open>
  C3. However the cascading delete of \<open>N\<close> ends (normally or by a store error
  on the way), the rows that are not \<open>N\<close> and do not descend from \<open>N\<close> are in the
  table afterwards exactly as before, in the same order. In particular, when
  ids are unique and the delete has returned normally, every other row with
  the \<open>parent_id\<close> of \<open>N\<close>'s row (the other versions of its lineage) is
  still in the table.
\<close>

theorem cascade_keeps_the_rest:
  assumes "deleteMessageRecursive depth N db = Some (res, db')"
  shows "filter (\<lambda>r. id_msg r \<noteq> N \<and> \<not> descends (rows db) (id_msg r) N) (rows db') =
         filter (\<lambda>r. id_msg r \<noteq> N \<and> \<not> descends (rows db) (id_msg r) N) (rows db) \<and>
         (res = Inr () \<and> distinct (map id_msg (rows db)) \<longrightarrow>
            (\<forall>E\<in>set (rows db). \<forall>M\<in>set (rows db).
               id_msg E = N \<and> parent_id M = parent_id E \<and> id_msg M \<noteq> N \<longrightarrow> M \<in> set (rows db')))"
proof -
  from cascade_inv_run(1) [OF assms] obtain new where
    inv: "cascade_inv [N] db res db' new" by blast
  from cascade_inv_gone [OF inv] obtain gone where
    g: "gone \<subseteq> deleted_ids new" "rows db' = filter (\<lambda>r. id_msg r \<notin> gone) (rows db)" by blast
  from inv have cf: "children_first (rows db) new"
    and sub: "\<forall>x\<in>deleted_ids new. x = N \<or> descends (rows db) x N"
    by (simp_all add: cascade_inv_def)
  have frame: "filter (\<lambda>r. id_msg r \<noteq> N \<and> \<not> descends (rows db) (id_msg r) N) (rows db') =
         filter (\<lambda>r. id_msg r \<noteq> N \<and> \<not> descends (rows db) (id_msg r) N) (rows db)"
    unfolding g(2) filter_filter
    using g(1) sub by (intro filter_cong [OF refl]) blast
  have sib: "M \<in> set (rows db')"
    if fin: "res = Inr ()" and dist: "distinct (map id_msg (rows db))"
      and E: "E \<in> set (rows db)" "id_msg E = N" and M: "M \<in> set (rows db)"
      "parent_id M = parent_id E" "id_msg M \<noteq> N" for E M
  proof -
    from inv fin have n: "N \<in> deleted_ids new" by (simp add: cascade_inv_def)
    have "\<not> descends (rows db) (id_msg M) N"
    proof
      assume "descends (rows db) (id_msg M) N"
      then have "(id_msg M, N) \<in> (parent_rel (rows db))\<^sup>+" by (simp add: descends_def)
      then obtain z where z: "(id_msg M, z) \<in> parent_rel (rows db)"
        "z = N \<or> (z, N) \<in> (parent_rel (rows db))\<^sup>+"
        by (auto elim: converse_tranclE)
      from z(1) obtain r where r: "r \<in> set (rows db)" "id_msg r = id_msg M" "parent_id r = Some z"
        by (auto simp: in_parent_rel)
      from dist r(1,2) M(1) have "r = M"
        by (meson distinct_map inj_onD)
      with r(3) M(2) have "parent_id E = Some z" by simp
      with E have "(N, z) \<in> parent_rel (rows db)" by (auto simp: in_parent_rel)
      with z(2) have "descends (rows db) N N"
        unfolding descends_def by (auto intro: trancl_into_trancl2)
      with children_first_no_cycle [OF cf n] show False by simp
    qed
    with M(3) have "M \<in> set (filter (\<lambda>r. id_msg r \<noteq> N \<and> \<not> descends (rows db) (id_msg r) N) (rows db))"
      using M(1) by simp
    with frame have "M \<in> set (filter (\<lambda>r. id_msg r \<noteq> N \<and> \<not> descends (rows db) (id_msg r) N) (rows db'))"
      by simp
    then show ?thesis by simp
  qed
  from frame sib show ?thesis by blast
qed

theorem cascade_keeps_the_rest_witness:
  "distinct (map id_msg (rows scenario_store)) \<and>
   hello \<in> set (rows scenario_store) \<and> hello_v2 \<in> set (rows scenario_store) \<and>
   id_msg hello = 1 \<and> parent_id hello_v2 = parent_id hello \<and> id_msg hello_v2 \<noteq> 1 \<and>
   hello_v2 \<in> set (rows (snd (the (deleteMessageRecursive 2 1 scenario_store))))"
proof -
  have h1: "distinct (map id_msg (rows scenario_store))"
    by (simp add: scenario_store_def hello_def hello_v2_def reply_a_def)
  have h2: "hello \<in> set (rows scenario_store)" "hello_v2 \<in> set (rows scenario_store)"
    by (simp_all add: scenario_store_def)
  have h3: "id_msg hello = 1" "parent_id hello_v2 = parent_id hello" "id_msg hello_v2 \<noteq> 1"
    by (simp_all add: hello_def hello_v2_def)
  from cascade_keeps_the_rest [OF scenario_cascade] h1 h2 h3
  have "hello_v2 \<in> set (rows
     \<lparr>rows = [hello_v2], next_id = 4, now = 40,
        calls = [SelectChildren 1, SelectChildren 3, Delete 3, Delete 1], faults = []\<rparr>)"
    by blast
  with h1 h2 h3 show ?thesis by (simp add: scenario_cascade)
qed

text \<open>
  C7. In the calls a cascading delete issues, however it ends, the delete of a
  message comes only after the deletes of all the rows that descend from it,
  its children first of all: whenever the log reads \<open>pre\<close>, then the delete of
  \<open>m\<close>, the delete of every descendant \<open>c\<close> of \<open>m\<close> is in \<open>pre\<close>.
\<close>

theorem children_deleted_before_parent:
  assumes "deleteMessageRecursive depth N db = Some (res, db')"
  shows "\<exists>new. calls db' = calls db @ new \<and>
           (\<forall>pre post m c. new = pre @ Delete m # post \<longrightarrow> descends (rows db) c m \<longrightarrow>
              Delete c \<in> set pre)"
proof -
  from cascade_inv_run(1) [OF assms] obtain new where
    inv: "cascade_inv [N] db res db' new" by blast
  then have "calls db' = calls db @ new" and cf: "children_first (rows db) new"
    by (simp_all add: cascade_inv_def)
  with children_first_descends [OF cf] show ?thesis by blast
qed

theorem children_deleted_before_parent_witness:
  "descends (rows scenario_store) 3 1 \<and>
   calls (snd (the (deleteMessageRecursive 2 1 scenario_store))) =
     [SelectChildren 1, SelectChildren 3, Delete 3] @ Delete 1 # [] \<and>
   Delete 3 \<in> set [SelectChildren 1, SelectChildren 3, Delete 3]"
proof -
  have h: "descends (rows scenario_store) 3 1"
    using scenario_reply_descends by (simp add: reply_a_def)
  from children_deleted_before_parent [OF scenario_cascade]
  obtain new where new: "[SelectChildren 1, SelectChildren 3, Delete 3, Delete 1] = new"
    and ord: "\<And>pre post m c. new = pre @ Delete m # post \<Longrightarrow>
      descends (rows scenario_store) c m \<Longrightarrow> Delete c \<in> set pre"
    by (auto simp: scenario_store_def)
  from ord [of "[SelectChildren 1, SelectChildren 3, Delete 3]" 1 "[]" 3] new h
  have "Delete 3 \<in> set [SelectChildren 1, SelectChildren 3, Delete 3]" by simp
  with h show ?thesis by (simp add: scenario_cascade)
qed

text \<open>
  C10. On a table whose \<open>parent_id\<close> references are acyclic, the cascading
  delete of any id returns: from some call depth on it gives one and the same
  outcome, and the calls it issued are a finite list appended to the log.
\<close>

theorem cascade_terminates:
  assumes "acyclic (parent_rel (rows db))"
  shows "\<exists>depth out new. (\<forall>d\<ge>depth. deleteMessageRecursive d N db = Some out) \<and>
           calls (snd out) = calls db @ new"
proof -
  from deleteMessageRecursive_returns [OF assms, of N]
  obtain depth res db' where run: "deleteMessageRecursive depth N db = Some (res, db')" by auto
  from cascade_inv_run(1) [OF run] obtain new where "calls db' = calls db @ new"
    by (auto simp: cascade_inv_def)
  with depth_mono(1) [OF run] show ?thesis by fastforce
qed

theorem cascade_terminates_witness:
  "acyclic (parent_rel (rows scenario_store)) \<and>
   (\<exists>depth out new. (\<forall>d\<ge>depth. deleteMessageRecursive d 1 scenario_store = Some out) \<and>
      calls (snd out) = calls scenario_store @ new)"
proof -
  have h: "acyclic (parent_rel (rows scenario_store))"
    by (rule parent_before_child_acyclic)
      (simp add: scenario_store_def hello_def hello_v2_def reply_a_def)
  from cascade_terminates [OF h] h show ?thesis by blast
qed

end
